theory Spec2Isabelle
  imports Main "HOL-Library.Word"
begin

section \<open>Strings of the source language\<close>

text \<open>
  A string of the source language is a sequence of 16-bit code units. The
  regular expression \<^verbatim>\<open>/\s+/\<close> carries no \<^verbatim>\<open>u\<close> flag, so it works on
  code units; the class \<^verbatim>\<open>\s\<close> is the language's WhiteSpace together with
  its LineTerminator code points.
\<close>

type_synonym code_unit = "16 word"
type_synonym jsstring = "code_unit list"

definition isWhiteSpace :: "code_unit \<Rightarrow> bool" where
  "isWhiteSpace c \<longleftrightarrow>
     c = 0x0009 \<or> c = 0x000A \<or> c = 0x000B \<or> c = 0x000C \<or> c = 0x000D \<or>
     c = 0x0020 \<or> c = 0x00A0 \<or> c = 0x1680 \<or>
     (0x2000 \<le> c \<and> c \<le> 0x200A) \<or>
     c = 0x2028 \<or> c = 0x2029 \<or> c = 0x202F \<or> c = 0x205F \<or>
     c = 0x3000 \<or> c = 0xFEFF"

definition SP :: jsstring where
  "SP = [0x0020]"

text \<open>Embedding of ASCII literals, used to write concrete inputs.\<close>

definition js :: "string \<Rightarrow> jsstring" where
  "js s = map (\<lambda>c. of_nat (of_char c)) s"

section \<open>The chunker\<close>

text \<open>
  \<^verbatim>\<open>text.split(/\s+/)\<close>. The separator matches a maximal run of white space
  and never the empty string. The text before the first run is pushed (empty
  when the text begins with white space), the search resumes after the run,
  and the text left after the last run is pushed at the end (empty when the
  text ends with white space, and the whole text when it holds no white
  space at all, the empty text included).
\<close>

function split_ws :: "jsstring \<Rightarrow> jsstring list" where
  "split_ws s =
     (case dropWhile (\<lambda>c. \<not> isWhiteSpace c) s of
        [] \<Rightarrow> [s]
      | w # rest \<Rightarrow>
          takeWhile (\<lambda>c. \<not> isWhiteSpace c) s # split_ws (dropWhile isWhiteSpace rest))"
  by pat_completeness auto
termination
proof (relation "measure length")
  show "wf (measure length)" by simp
next
  fix s :: jsstring and w rest
  assume d: "dropWhile (\<lambda>c. \<not> isWhiteSpace c) s = w # rest"
  have "length (dropWhile isWhiteSpace rest) \<le> length rest"
    by (rule length_dropWhile_le)
  moreover have "length (w # rest) \<le> length s"
    unfolding d [symmetric] by (rule length_dropWhile_le)
  ultimately show "(dropWhile isWhiteSpace rest, s) \<in> measure length"
    by simp
qed

declare split_ws.simps [simp del]

text \<open>\<^verbatim>\<open>words.slice(i, j)\<close> for \<open>0 \<le> i \<le> j\<close>; both ends are clamped to the length.\<close>

definition array_slice :: "'a list \<Rightarrow> nat \<Rightarrow> nat \<Rightarrow> 'a list" where
  "array_slice xs i j = take (j - i) (drop i xs)"

text \<open>\<^verbatim>\<open>parts.join(sep)\<close> on an array of strings.\<close>

fun array_join :: "jsstring \<Rightarrow> jsstring list \<Rightarrow> jsstring" where
  "array_join sep [] = []"
| "array_join sep [x] = x"
| "array_join sep (x # y # ys) = x @ sep @ array_join sep (y # ys)"

text \<open>The \<^verbatim>\<open>for\<close> loop of \<^verbatim>\<open>splitIntoChunks\<close>, with its counter and its result array.\<close>

function chunk_loop :: "jsstring list \<Rightarrow> nat \<Rightarrow> jsstring list \<Rightarrow> jsstring list" where
  "chunk_loop words i chunks =
     (if i < length words
      then chunk_loop words (i + 8) (chunks @ [array_join SP (array_slice words i (i + 8))])
      else chunks)"
  by pat_completeness auto
termination
  by (relation "measure (\<lambda>(words, i, chunks). length words - i)") auto

declare chunk_loop.simps [simp del]

definition splitIntoChunks :: "jsstring \<Rightarrow> jsstring list" where
  "splitIntoChunks text = chunk_loop (split_ws text) 0 []"

section \<open>The chunker as the specification words it\<close>

text \<open>
  The definitions of this section follow the specification's sentences, not the
  source; the theorems below compare them with the source's functions.
\<close>

text \<open>Ordered batches of at most \<open>n\<close> elements: every batch but the last is full.\<close>

function batches :: "nat \<Rightarrow> 'a list \<Rightarrow> 'a list list" where
  "batches n xs = (if xs = [] \<or> n = 0 then [] else take n xs # batches n (drop n xs))"
  by pat_completeness auto
termination
  by (relation "measure (\<lambda>(n, xs). length xs)") auto

declare batches.simps [simp del]

text \<open>
  The white-space-normalised token sequence of a text: its maximal runs of
  characters that are not white space, in order. \<open>cur\<close> is the token being read.
\<close>

fun tokens_from :: "jsstring \<Rightarrow> jsstring \<Rightarrow> jsstring list" where
  "tokens_from cur [] = (if cur = [] then [] else [cur])"
| "tokens_from cur (c # cs) =
     (if isWhiteSpace c
      then (if cur = [] then tokens_from [] cs else cur # tokens_from [] cs)
      else tokens_from (cur @ [c]) cs)"

definition ws_tokens :: "jsstring \<Rightarrow> jsstring list" where
  "ws_tokens s = tokens_from [] s"

text \<open>
  The chunker of the specification: split on white-space runs, discard empty
  tokens, group into batches of at most 8, rejoin with single spaces.
\<close>

definition chunker_spec :: "jsstring \<Rightarrow> jsstring list" where
  "chunker_spec text = map (array_join SP) (batches 8 (ws_tokens text))"

text \<open>One empty token when the condition holds, none otherwise.\<close>

definition edge_tokens :: "bool \<Rightarrow> jsstring list" where
  "edge_tokens b = (if b then [[]] else [])"

text \<open>A text with every maximal run of white space replaced by one space.\<close>

function collapse_ws :: "jsstring \<Rightarrow> jsstring" where
  "collapse_ws [] = []"
| "collapse_ws (c # cs) =
     (if isWhiteSpace c then 0x0020 # collapse_ws (dropWhile isWhiteSpace cs)
      else c # collapse_ws cs)"
  by pat_completeness auto
termination
proof (relation "measure length")
  show "wf (measure length)" by simp
next
  fix c :: code_unit and cs :: jsstring
  show "(dropWhile isWhiteSpace cs, c # cs) \<in> measure length"
    using length_dropWhile_le [of isWhiteSpace cs] by simp
next
  fix c :: code_unit and cs :: jsstring
  show "(cs, c # cs) \<in> measure length" by simp
qed

section \<open>The playback sequencer\<close>

text \<open>
  Calls the component makes to its collaborators, in the order it makes them:
  \<^verbatim>\<open>repeatMessage(chunk)\<close>, \<^verbatim>\<open>interrupt()\<close>, \<^verbatim>\<open>sendMessage(userInput)\<close>,
  \<^verbatim>\<open>update()\<close> and \<^verbatim>\<open>setTimeout(res, 1000)\<close>.
\<close>

datatype effect =
    RepeatMessage jsstring
  | Interrupt
  | SendMessage jsstring
  | ForceUpdate
  | SetTimeout nat

text \<open>
  \<^verbatim>\<open>chunks\<close>, \<^verbatim>\<open>isInterrupted\<close> and \<^verbatim>\<open>resumeRequested\<close> are \<^verbatim>\<open>const\<close>
  bindings that \<^verbatim>\<open>useState\<close> gives to one call of the component function.
  \<^verbatim>\<open>speakRemainingChunks\<close> is created anew by every such call and reads the
  bindings of the call that created it; a setter schedules the next call and
  leaves them as they are. \<^verbatim>\<open>chunkIndexRef\<close> is one mutable cell shared by all
  calls.
\<close>

record closure =
  c_chunks :: "jsstring list"
  c_isInterrupted :: bool
  c_resumeRequested :: bool

text \<open>The two \<^verbatim>\<open>await\<close>s of the loop body at which a run of the loop is suspended.\<close>

datatype suspension = AwaitRepeat | AwaitDelay

text \<open>
  The component: its state hooks, its ref, the suspended runs of
  \<^verbatim>\<open>speakRemainingChunks\<close> (each with the bindings it reads) and the calls made
  so far.
\<close>

record component =
  userContent :: jsstring
  chunks :: "jsstring list"
  chunkIndexRef :: nat
  isSpeaking :: bool
  isInterrupted :: bool
  resumeRequested :: bool
  suspended :: "(closure \<times> suspension) list"
  effects :: "effect list"

definition mounted :: component where
  "mounted = \<lparr>userContent = [], chunks = [], chunkIndexRef = 0, isSpeaking = False,
     isInterrupted = False, resumeRequested = False, suspended = [], effects = []\<rparr>"

text \<open>The bindings the functions of the latest render read.\<close>

definition render :: "component \<Rightarrow> closure" where
  "render w = \<lparr>c_chunks = chunks w, c_isInterrupted = isInterrupted w,
     c_resumeRequested = resumeRequested w\<rparr>"

text \<open>
  \<^verbatim>\<open>speakRemainingChunks\<close> from the loop test to the next suspension: either the
  speak call is issued and the run waits for it, or the loop is left and
  \<^verbatim>\<open>setResumeRequested(false)\<close> ends the run. The index is below the length of
  the array it reads whenever the array is read.
\<close>

definition speakRemainingChunks :: "closure \<Rightarrow> component \<Rightarrow> component" where
  "speakRemainingChunks cl w =
     (if chunkIndexRef w < length (c_chunks cl) then
        (if c_isInterrupted cl \<and> \<not> c_resumeRequested cl then w\<lparr>resumeRequested := False\<rparr>
         else w\<lparr>isSpeaking := True,
                effects := effects w @ [RepeatMessage (c_chunks cl ! chunkIndexRef w)],
                suspended := suspended w @ [(cl, AwaitRepeat)]\<rparr>)
      else w\<lparr>resumeRequested := False\<rparr>)"

text \<open>
  The awaited \<^verbatim>\<open>repeatMessage\<close> call of the \<open>k\<close>-th suspended run resolves: the
  run goes on to the delay.
\<close>

definition repeat_resolved :: "nat \<Rightarrow> component \<Rightarrow> component" where
  "repeat_resolved k w =
     (if k < length (suspended w) \<and> snd (suspended w ! k) = AwaitRepeat then
        w\<lparr>isSpeaking := False,
          chunkIndexRef := chunkIndexRef w + 1,
          effects := effects w @ [ForceUpdate, SetTimeout 1000],
          suspended := (suspended w)[k := (fst (suspended w ! k), AwaitDelay)]\<rparr>
      else w)"

text \<open>
  The awaited call rejects: the run ends there with the error, which nothing
  in the component catches.
\<close>

definition repeat_rejected :: "nat \<Rightarrow> component \<Rightarrow> component" where
  "repeat_rejected k w =
     (if k < length (suspended w) \<and> snd (suspended w ! k) = AwaitRepeat then
        w\<lparr>suspended := take k (suspended w) @ drop (Suc k) (suspended w)\<rparr>
      else w)"

text \<open>The delay of the \<open>k\<close>-th suspended run is over: the run is back at the loop test.\<close>

definition delay_elapsed :: "nat \<Rightarrow> component \<Rightarrow> component" where
  "delay_elapsed k w =
     (if k < length (suspended w) \<and> snd (suspended w ! k) = AwaitDelay then
        speakRemainingChunks (fst (suspended w ! k))
          (w\<lparr>suspended := take k (suspended w) @ drop (Suc k) (suspended w)\<rparr>)
      else w)"

definition startSpeaking :: "component \<Rightarrow> component" where
  "startSpeaking w =
     (if chunks w = [] \<or> isSpeaking w then w
      else speakRemainingChunks (render w)
             (w\<lparr>isInterrupted := False, resumeRequested := False, chunkIndexRef := 0\<rparr>))"

definition handleInterrupt :: "jsstring \<Rightarrow> component \<Rightarrow> component" where
  "handleInterrupt userInput w =
     (if \<not> isSpeaking w then w
      else w\<lparr>isInterrupted := True, resumeRequested := False,
             effects := effects w @ [Interrupt, SendMessage userInput]\<rparr>)"

definition resumeSpeaking :: "component \<Rightarrow> component" where
  "resumeSpeaking w =
     (if \<not> isInterrupted w \<or> isSpeaking w \<or> chunkIndexRef w \<ge> length (chunks w) then w
      else speakRemainingChunks (render w)
             (w\<lparr>resumeRequested := True, isInterrupted := False\<rparr>))"

text \<open>The \<^verbatim>\<open>onChange\<close> handler of the text input.\<close>

definition onChange :: "jsstring \<Rightarrow> component \<Rightarrow> component" where
  "onChange input w =
     w\<lparr>userContent := input, chunks := splitIntoChunks input, chunkIndexRef := 0,
       isInterrupted := False, resumeRequested := False\<rparr>"

text \<open>
  Everything that can happen to the component: the user's actions, the answers
  to the suspended runs, and the two avatar events whose handlers
  \<^verbatim>\<open>startSessionV2\<close> registers. A click reaches its handler only when the
  button is not disabled, and the Interrupt button passes a fixed message.
\<close>

datatype event =
    Change jsstring
  | Speak
  | InterruptClick
  | Resume
  | RepeatResolved nat
  | RepeatRejected nat
  | DelayElapsed nat
  | AvatarStartTalking
  | AvatarStopTalking

fun fire :: "event \<Rightarrow> component \<Rightarrow> component" where
  "fire (Change input) w = onChange input w"
| "fire Speak w = (if userContent w = [] \<or> isSpeaking w then w else startSpeaking w)"
| "fire InterruptClick w =
     (if \<not> isSpeaking w then w else handleInterrupt (js ''User interruption!'') w)"
| "fire Resume w = (if \<not> isInterrupted w \<or> isSpeaking w then w else resumeSpeaking w)"
| "fire (RepeatResolved k) w = repeat_resolved k w"
| "fire (RepeatRejected k) w = repeat_rejected k w"
| "fire (DelayElapsed k) w = delay_elapsed k w"
| "fire AvatarStartTalking w = w\<lparr>isSpeaking := True\<rparr>"
| "fire AvatarStopTalking w = w\<lparr>isSpeaking := False\<rparr>"

fun run :: "event list \<Rightarrow> component \<Rightarrow> component" where
  "run [] w = w"
| "run (e # es) w = run es (fire e w)"

text \<open>The events that set the chunk index back: a new utterance and a fresh playback.\<close>

fun resets :: "event \<Rightarrow> bool" where
  "resets (Change input) = True"
| "resets Speak = True"
| "resets e = False"

text \<open>The speak calls among the calls made, in order.\<close>

fun spoken :: "effect list \<Rightarrow> jsstring list" where
  "spoken [] = []"
| "spoken (RepeatMessage c # es) = c # spoken es"
| "spoken (e # es) = spoken es"

text \<open>
  A playback left alone: in each round the speak call of the only suspended run
  resolves and its delay runs out.
\<close>

fun uninterrupted :: "nat \<Rightarrow> event list" where
  "uninterrupted 0 = []"
| "uninterrupted (Suc n) = RepeatResolved 0 # DelayElapsed 0 # uninterrupted n"

section \<open>Starting a session\<close>

text \<open>
  What is thrown inside \<^verbatim>\<open>startSessionV2\<close>: its own
  \<^verbatim>\<open>Error("No access token")\<close>, or whatever a collaborator throws.
\<close>

datatype error = NoAccessToken | Thrown nat

datatype session_effect =
    FetchAccessToken
  | InitAvatar jsstring
  | OnAvatarStartTalking
  | OnAvatarStopTalking
  | StartAvatar
  | StartVoiceChat
  | ConsoleError error

text \<open>
  The answers of the collaborators: \<^verbatim>\<open>fetch\<close> rejects, or resolves with a
  response whose \<^verbatim>\<open>text()\<close> rejects or resolves with the body;
  \<^verbatim>\<open>initAvatar\<close>, \<^verbatim>\<open>startAvatar\<close> and \<^verbatim>\<open>startVoiceChat\<close> fail or not.
\<close>

record collaborators =
  fetch_response :: "error + (error + jsstring)"
  initAvatar_throws :: "error option"
  startAvatar_rejects :: "error option"
  startVoiceChat_rejects :: "error option"

text \<open>The \<^verbatim>\<open>try\<close> block: the calls made, and the error that left the block, if any.\<close>

definition session_try :: "collaborators \<Rightarrow> bool \<Rightarrow> session_effect list \<times> error option" where
  "session_try env isVoiceChat =
     (case fetch_response env of
        Inl e \<Rightarrow> ([FetchAccessToken], Some e)
      | Inr response \<Rightarrow>
          (case response of
             Inl e \<Rightarrow> ([FetchAccessToken], Some e)
           | Inr token \<Rightarrow>
               if token = [] then ([FetchAccessToken], Some NoAccessToken)
               else
                 (case initAvatar_throws env of
                    Some e \<Rightarrow> ([FetchAccessToken, InitAvatar token], Some e)
                  | None \<Rightarrow>
                      (case startAvatar_rejects env of
                         Some e \<Rightarrow>
                           ([FetchAccessToken, InitAvatar token, OnAvatarStartTalking,
                             OnAvatarStopTalking, StartAvatar], Some e)
                       | None \<Rightarrow>
                           if isVoiceChat then
                             ([FetchAccessToken, InitAvatar token, OnAvatarStartTalking,
                               OnAvatarStopTalking, StartAvatar, StartVoiceChat],
                              startVoiceChat_rejects env)
                           else
                             ([FetchAccessToken, InitAvatar token, OnAvatarStartTalking,
                               OnAvatarStopTalking, StartAvatar], None)))))"

text \<open>The \<^verbatim>\<open>catch\<close> block logs the error and the function returns.\<close>

definition startSessionV2 :: "collaborators \<Rightarrow> bool \<Rightarrow> session_effect list" where
  "startSessionV2 env isVoiceChat =
     (case session_try env isVoiceChat of
        (calls, None) \<Rightarrow> calls
      | (calls, Some e) \<Rightarrow> calls @ [ConsoleError e])"

section \<open>Scenarios\<close>

text \<open>
  One chunk is being spoken when the user interrupts; the speak call resolves
  and the delay runs out, which ends the run.
\<close>

definition interrupted_only_chunk :: "event list" where
  "interrupted_only_chunk =
     [Change (js ''hello''), Speak, InterruptClick,
      RepeatResolved 0, DelayElapsed 0]"

text \<open>
  Two chunks; the user interrupts while the first is being spoken, and its
  speak call resolves.
\<close>

definition interrupted_first_of_two :: "event list" where
  "interrupted_first_of_two =
     [Change (js ''a b c d e f g h i''), Speak, InterruptClick,
      RepeatResolved 0]"

text \<open>
  No playback was started; the avatar talks, the user interrupts it, and the
  avatar stops talking.
\<close>

definition interrupted_avatar_talk :: "event list" where
  "interrupted_avatar_talk =
     [Change (js ''hello''), AvatarStartTalking, InterruptClick,
      AvatarStopTalking]"

text \<open>Answers of the collaborators, for concrete sessions.\<close>

definition network_down :: collaborators where
  "network_down = \<lparr>fetch_response = Inl (Thrown 0), initAvatar_throws = None,
     startAvatar_rejects = None, startVoiceChat_rejects = None\<rparr>"

definition empty_body :: collaborators where
  "empty_body = \<lparr>fetch_response = Inr (Inr []), initAvatar_throws = None,
     startAvatar_rejects = None, startVoiceChat_rejects = None\<rparr>"

definition token_served :: collaborators where
  "token_served = \<lparr>fetch_response = Inr (Inr (js ''tok'')), initAvatar_throws = None,
     startAvatar_rejects = None, startVoiceChat_rejects = None\<rparr>"

section \<open>Properties of the chunker\<close>

lemma split_ws_Nil: "split_ws [] = [[]]"
  by (simp add: split_ws.simps)

lemma split_ws_ws: "isWhiteSpace c \<Longrightarrow> split_ws (c # cs) = [] # split_ws (dropWhile isWhiteSpace cs)"
  by (simp add: split_ws.simps [of "c # cs"])

lemma split_ws_not_Nil: "split_ws s \<noteq> []"
  by (subst split_ws.simps) (simp split: list.split)

lemma split_ws_nonws:
  assumes that: "\<not> isWhiteSpace c"
  shows "split_ws (c # cs) = (c # hd (split_ws cs)) # tl (split_ws cs)"
proof (cases "dropWhile (\<lambda>c. \<not> isWhiteSpace c) cs")
  case Nil
  then have "takeWhile (\<lambda>c. \<not> isWhiteSpace c) cs = cs"
    by (simp add: dropWhile_eq_Nil_conv takeWhile_eq_all_conv)
  with Nil that show ?thesis
    by (simp add: split_ws.simps [of "c # cs"] split_ws.simps [of cs]
          del: dropWhile_eq_Nil_conv)
next
  case (Cons w rest)
  with that show ?thesis
    by (simp add: split_ws.simps [of "c # cs"] split_ws.simps [of cs])
qed

lemma split_ws_tokens_clean: "t \<in> set (split_ws s) \<Longrightarrow> c \<in> set t \<Longrightarrow> \<not> isWhiteSpace c"
proof (induction s arbitrary: t rule: split_ws.induct)
  case (1 s)
  show ?case
  proof (cases "dropWhile (\<lambda>c. \<not> isWhiteSpace c) s")
    case Nil
    with "1.prems" have "t = s" by (simp add: split_ws.simps [of s])
    moreover from Nil have "\<forall>x\<in>set s. \<not> isWhiteSpace x" by (simp add: dropWhile_eq_Nil_conv)
    ultimately show ?thesis using "1.prems" by blast
  next
    case (Cons w rest)
    with "1.prems" have "t = takeWhile (\<lambda>c. \<not> isWhiteSpace c) s \<or> t \<in> set (split_ws (dropWhile isWhiteSpace rest))"
      by (simp add: split_ws.simps [of s])
    then show ?thesis
    proof
      assume "t = takeWhile (\<lambda>c. \<not> isWhiteSpace c) s"
      with "1.prems" show ?thesis by (auto dest: set_takeWhileD)
    next
      assume "t \<in> set (split_ws (dropWhile isWhiteSpace rest))"
      then show ?thesis using "1.IH" [OF Cons] "1.prems" by blast
    qed
  qed
qed

lemma batches_Nil: "batches n [] = []"
  by (subst batches.simps) simp

lemma chunk_loop_batches:
  "chunk_loop words i acc = acc @ map (array_join SP) (batches 8 (drop i words))"
proof (induction words i acc rule: chunk_loop.induct)
  case (1 words i acc)
  show ?case
  proof (cases "i < length words")
    case True
    then have "batches 8 (drop i words) = take 8 (drop i words) # batches 8 (drop (i + 8) words)"
      by (subst batches.simps) (simp add: add.commute)
    with True "1.IH" show ?thesis
      by (subst chunk_loop.simps) (simp add: array_slice_def)
  next
    case False
    then show ?thesis
      by (subst chunk_loop.simps, subst batches.simps) simp
  qed
qed

lemma splitIntoChunks_batches: "splitIntoChunks t = map (array_join SP) (batches 8 (split_ws t))"
  by (simp add: splitIntoChunks_def chunk_loop_batches)

lemma concat_batches: "0 < n \<Longrightarrow> concat (batches n xs) = xs"
proof (induction n xs rule: batches.induct)
  case (1 n xs)
  then show ?case by (subst batches.simps) simp
qed

lemma batches_bounds: "b \<in> set (batches n xs) \<Longrightarrow> b \<noteq> [] \<and> length b \<le> n"
proof (induction n xs rule: batches.induct)
  case (1 n xs)
  from "1.prems" have ne: "xs \<noteq> []" "n \<noteq> 0" by (auto simp: batches.simps [of n xs] split: if_splits)
  with "1.prems" have "b = take n xs \<or> b \<in> set (batches n (drop n xs))"
    by (simp add: batches.simps [of n xs])
  then show ?case
  proof
    assume "b = take n xs"
    with ne show ?thesis by simp
  next
    assume "b \<in> set (batches n (drop n xs))"
    with ne "1.IH" show ?thesis by simp
  qed
qed

lemma batches_full: "b \<in> set (butlast (batches n xs)) \<Longrightarrow> length b = n"
proof (induction n xs rule: batches.induct)
  case (1 n xs)
  from "1.prems" have ne: "xs \<noteq> []" "n \<noteq> 0" by (auto simp: batches.simps [of n xs] split: if_splits)
  show ?case
  proof (cases "batches n (drop n xs) = []")
    case True
    with "1.prems" ne show ?thesis by (simp add: batches.simps [of n xs])
  next
    case False
    then have "drop n xs \<noteq> []" by (auto simp: batches.simps [of n "drop n xs"])
    then have len: "length (take n xs) = n" by simp
    from False "1.prems" ne have "b = take n xs \<or> b \<in> set (butlast (batches n (drop n xs)))"
      by (simp add: batches.simps [of n xs])
    then show ?thesis using len "1.IH" ne by auto
  qed
qed

lemma batches_not_Nil: "xs \<noteq> [] \<Longrightarrow> 0 < n \<Longrightarrow> batches n xs \<noteq> []"
  by (subst batches.simps) simp

lemma ceil_step:
  fixes k n :: nat
  assumes "0 < n" "n < k"
  shows "(k + n - 1) div n = Suc ((k - n + n - 1) div n)"
proof -
  from assms have a: "k + n - 1 = (k - 1) + n" by arith
  from assms have b: "k - n + n - 1 = k - 1" by arith
  from assms have "((k - 1) + n) div n = Suc ((k - 1) div n)" by (simp only: div_add_self2)
  then show ?thesis by (simp only: a b)
qed

lemma length_batches: "0 < n \<Longrightarrow> length (batches n xs) = (length xs + n - 1) div n"
proof (induction n xs rule: batches.induct)
  case (1 n xs)
  show ?case
  proof (cases "xs = []")
    case True
    with "1.prems" show ?thesis by (simp add: batches_Nil)
  next
    case False
    show ?thesis
    proof (cases "length xs \<le> n")
      case True
      with False "1.prems" have "(length xs + n - 1) div n = 1"
        by (intro div_nat_eqI) (cases xs, simp_all)
      moreover from True False "1.prems" have "batches n xs = [xs]"
        by (simp add: batches.simps [of n xs] batches_Nil)
      ultimately show ?thesis by simp
    next
      case gt: False
      with "1.prems" have c: "(length xs + n - 1) div n = Suc ((length xs - n + n - 1) div n)"
        by (intro ceil_step) simp_all
      from False "1.prems" have "length (batches n xs) = Suc (length (batches n (drop n xs)))"
        by (simp add: batches.simps [of n xs])
      also from False "1.prems" have "length (batches n (drop n xs)) = (length (drop n xs) + n - 1) div n"
        by (intro "1.IH") simp_all
      finally show ?thesis by (simp only: c length_drop)
    qed
  qed
qed

lemma tokens_from_skip_ws: "tokens_from [] (dropWhile isWhiteSpace s) = tokens_from [] s"
  by (induction s) simp_all

lemma last_dropWhile_keep: "dropWhile P xs \<noteq> [] \<Longrightarrow> last (dropWhile P xs) = last xs"
  by (induction xs) (auto split: if_splits)

lemma dropWhile_all_last: "dropWhile P xs = [] \<Longrightarrow> xs \<noteq> [] \<Longrightarrow> P (last xs)"
  by (simp add: dropWhile_eq_Nil_conv)

lemma split_ws_tokens_from:
  "(cur @ hd (split_ws s)) # tl (split_ws s) =
     edge_tokens (cur = [] \<and> (s = [] \<or> isWhiteSpace (hd s))) @ tokens_from cur s @
     edge_tokens (s \<noteq> [] \<and> isWhiteSpace (last s))"
proof (induction s arbitrary: cur rule: length_induct)
  case (1 s)
  show ?case
  proof (cases s)
    case Nil
    then show ?thesis by (simp add: split_ws_Nil edge_tokens_def)
  next
    case (Cons c cs)
    show ?thesis
    proof (cases "isWhiteSpace c")
      case True
      let ?d = "dropWhile isWhiteSpace cs"
      have "length ?d < length s" using Cons length_dropWhile_le [of isWhiteSpace cs] by simp
      with "1.IH" have ih: "([] @ hd (split_ws ?d)) # tl (split_ws ?d) =
          edge_tokens ([] = ([]::jsstring) \<and> (?d = [] \<or> isWhiteSpace (hd ?d))) @ tokens_from [] ?d @
          edge_tokens (?d \<noteq> [] \<and> isWhiteSpace (last ?d))" by blast
      have s: "split_ws ?d = tokens_from [] cs @ edge_tokens (isWhiteSpace (last (c # cs)))"
      proof (cases ?d)
        case Nil
        then have "isWhiteSpace (last (c # cs))" using True dropWhile_all_last [of isWhiteSpace cs] by simp
        moreover have "tokens_from [] cs = []" using tokens_from_skip_ws [of cs] Nil by simp
        ultimately show ?thesis using Nil
          by (simp add: split_ws_Nil edge_tokens_def del: dropWhile_eq_Nil_conv)
      next
        case (Cons d ds)
        then have "\<not> isWhiteSpace d" using hd_dropWhile [of isWhiteSpace cs] by simp
        moreover have "last ?d = last (c # cs)" using Cons last_dropWhile_keep [of isWhiteSpace cs]
          by (cases cs) simp_all
        moreover have "tokens_from [] ?d = tokens_from [] cs" by (rule tokens_from_skip_ws)
        ultimately show ?thesis using ih Cons split_ws_not_Nil [of ?d]
          by (simp add: edge_tokens_def)
      qed
      show ?thesis using True Cons
        by (simp add: split_ws_ws s edge_tokens_def)
    next
      case False
      have "length cs < length s" using Cons by simp
      with "1.IH" have ih: "((cur @ [c]) @ hd (split_ws cs)) # tl (split_ws cs) =
          edge_tokens (cur @ [c] = [] \<and> (cs = [] \<or> isWhiteSpace (hd cs))) @ tokens_from (cur @ [c]) cs @
          edge_tokens (cs \<noteq> [] \<and> isWhiteSpace (last cs))" by blast
      show ?thesis using False Cons ih
        by (simp add: split_ws_nonws edge_tokens_def)
    qed
  qed
qed

lemma split_ws_edges:
  "split_ws s = edge_tokens (s = [] \<or> isWhiteSpace (hd s)) @ ws_tokens s @
     edge_tokens (s \<noteq> [] \<and> isWhiteSpace (last s))"
  using split_ws_tokens_from [of "[]" s] split_ws_not_Nil [of s]
  by (simp add: ws_tokens_def)

lemma tokens_from_nonempty: "t \<in> set (tokens_from cur s) \<Longrightarrow> t \<noteq> []"
  by (induction cur s rule: tokens_from.induct) (auto split: if_splits)

lemma filter_tokens_from: "filter (\<lambda>t. t \<noteq> []) (tokens_from cur s) = tokens_from cur s"
  by (simp add: filter_id_conv tokens_from_nonempty)

lemma ws_tokens_split: "filter (\<lambda>t. t \<noteq> []) (split_ws s) = ws_tokens s"
  by (subst split_ws_edges) (simp add: edge_tokens_def ws_tokens_def filter_tokens_from)

lemma array_join_Cons: "ys \<noteq> [] \<Longrightarrow> array_join sep (x # ys) = x @ sep @ array_join sep ys"
  by (cases ys) simp_all

lemma array_join_append:
  "xs \<noteq> [] \<Longrightarrow> zs \<noteq> [] \<Longrightarrow> array_join sep (xs @ zs) = array_join sep xs @ sep @ array_join sep zs"
proof (induction sep xs rule: array_join.induct)
  case (1 sep)
  then show ?case by simp
next
  case (2 sep x)
  then show ?case by (simp add: array_join_Cons)
next
  case (3 sep x y ys)
  then show ?case by simp
qed

lemma array_join_batches:
  "0 < n \<Longrightarrow> array_join sep (map (array_join sep) (batches n xs)) = array_join sep xs"
proof (induction n xs rule: batches.induct)
  case (1 n xs)
  show ?case
  proof (cases "xs = []")
    case True
    then show ?thesis by (simp add: batches_Nil)
  next
    case False
    show ?thesis
    proof (cases "drop n xs = []")
      case True
      with False "1.prems" show ?thesis by (simp add: batches.simps [of n xs] batches_Nil)
    next
      case d: False
      with "1.prems" have b: "batches n (drop n xs) \<noteq> []" by (simp add: batches_not_Nil)
      from False "1.prems" have t: "take n xs \<noteq> []" by simp
      from False "1.prems" "1.IH"
      have ih: "array_join sep (map (array_join sep) (batches n (drop n xs))) = array_join sep (drop n xs)"
        by simp
      have "array_join sep xs = array_join sep (take n xs @ drop n xs)" by simp
      also have "\<dots> = array_join sep (take n xs) @ sep @ array_join sep (drop n xs)"
        using t d by (rule array_join_append)
      finally show ?thesis using False "1.prems" b ih
        by (simp add: batches.simps [of n xs] array_join_Cons)
    qed
  qed
qed

lemma tokens_from_clean:
  "\<forall>c\<in>set x. \<not> isWhiteSpace c \<Longrightarrow> tokens_from cur (x @ s) = tokens_from (cur @ x) s"
  by (induction x arbitrary: cur) simp_all

lemma isWhiteSpace_space: "isWhiteSpace 0x20"
  by (simp add: isWhiteSpace_def)

lemma ws_tokens_array_join:
  "\<forall>t\<in>set b. \<forall>c\<in>set t. \<not> isWhiteSpace c \<Longrightarrow>
     ws_tokens (array_join SP b) = filter (\<lambda>t. t \<noteq> []) b"
proof (induction SP b rule: array_join.induct)
  case 1
  then show ?case by (simp add: ws_tokens_def)
next
  case (2 x)
  then show ?case using tokens_from_clean [of x "[]" "[]"] by (simp add: ws_tokens_def)
next
  case (3 x y ys)
  then have "ws_tokens (array_join SP (y # ys)) = filter (\<lambda>t. t \<noteq> []) (y # ys)" by simp
  moreover from 3 have "tokens_from [] (x @ SP @ array_join SP (y # ys)) = tokens_from ([] @ x) (SP @ array_join SP (y # ys))"
    by (intro tokens_from_clean) simp
  ultimately show ?case
    by (simp add: ws_tokens_def SP_def isWhiteSpace_space)
qed

lemma array_join_push: "array_join sep ((c # h) # ts) = c # array_join sep (h # ts)"
  by (cases ts) simp_all

lemma array_join_split_ws: "array_join SP (split_ws s) = collapse_ws s"
proof (induction s rule: collapse_ws.induct)
  case 1
  show ?case by (simp add: split_ws_Nil)
next
  case (2 c cs)
  show ?case
  proof (cases "isWhiteSpace c")
    case True
    with 2 show ?thesis
      by (simp add: split_ws_ws array_join_Cons split_ws_not_Nil SP_def)
  next
    case False
    have "hd (split_ws cs) # tl (split_ws cs) = split_ws cs"
      by (simp add: split_ws_not_Nil)
    with False 2 show ?thesis
      by (simp add: split_ws_nonws array_join_push)
  qed
qed

lemma split_ws_clean_prefix:
  "\<forall>c\<in>set x. \<not> isWhiteSpace c \<Longrightarrow>
     split_ws (x @ s) = (x @ hd (split_ws s)) # tl (split_ws s)"
  by (induction x) (simp_all add: split_ws_not_Nil split_ws_nonws)

lemma length_split_ws_skip:
  "length (split_ws (dropWhile isWhiteSpace s)) \<le> length (split_ws s)"
proof (cases s)
  case Nil
  then show ?thesis by simp
next
  case (Cons c cs)
  then show ?thesis by (cases "isWhiteSpace c") (simp_all add: split_ws_ws)
qed

lemma length_split_ws_array_join:
  "\<forall>t\<in>set b. \<forall>c\<in>set t. \<not> isWhiteSpace c \<Longrightarrow> b \<noteq> [] \<Longrightarrow>
     length (split_ws (array_join SP b)) \<le> length b"
proof (induction SP b rule: array_join.induct)
  case 1
  then show ?case by simp
next
  case (2 x)
  then show ?case using split_ws_clean_prefix [of x "[]"] by (simp add: split_ws_Nil)
next
  case (3 x y ys)
  let ?r = "array_join SP (y # ys)"
  from 3 have ih: "length (split_ws ?r) \<le> length (y # ys)" by simp
  from 3 have "split_ws (x @ SP @ ?r) = (x @ hd (split_ws (SP @ ?r))) # tl (split_ws (SP @ ?r))"
    by (intro split_ws_clean_prefix) simp
  moreover have "split_ws (SP @ ?r) = [] # split_ws (dropWhile isWhiteSpace ?r)"
    by (simp add: SP_def split_ws_ws isWhiteSpace_space)
  ultimately have "length (split_ws (x @ SP @ ?r)) = Suc (length (split_ws (dropWhile isWhiteSpace ?r)))"
    by simp
  with ih length_split_ws_skip [of ?r] show ?case by simp
qed

lemma splitIntoChunks_not_Nil: "splitIntoChunks text \<noteq> []"
  by (simp add: splitIntoChunks_batches batches_not_Nil split_ws_not_Nil)

lemma splitIntoChunks_empty: "splitIntoChunks [] = [[]]"
  by (simp add: splitIntoChunks_def split_ws.simps chunk_loop.simps array_slice_def)

lemma batch_tokens_clean:
  assumes "b \<in> set (batches 8 (split_ws text))" "t \<in> set b" "c \<in> set t"
  shows "\<not> isWhiteSpace c"
proof -
  from assms(1,2) have "t \<in> set (concat (batches 8 (split_ws text)))" by auto
  then have "t \<in> set (split_ws text)" by (simp add: concat_batches)
  then show ?thesis using assms(3) by (rule split_ws_tokens_clean)
qed

lemma js_example_split:
  "split_ws (js ''a b c d e f g h i j'') =
     map js [''a'', ''b'', ''c'', ''d'', ''e'', ''f'', ''g'', ''h'', ''i'', ''j'']"
  by (simp add: js_def split_ws.simps isWhiteSpace_def)

lemma js_example_batches:
  "batches 8 (map js [''a'', ''b'', ''c'', ''d'', ''e'', ''f'', ''g'', ''h'', ''i'', ''j'']) =
     [map js [''a'', ''b'', ''c'', ''d'', ''e'', ''f'', ''g'', ''h''], map js [''i'', ''j'']]"
  by (simp add: batches.simps)

lemma js_example_chunks:
  "splitIntoChunks (js ''a b c d e f g h i j'') = [js ''a b c d e f g h'', js ''i j'']"
  by (simp add: splitIntoChunks_def js_def split_ws.simps isWhiteSpace_def chunk_loop.simps
      array_slice_def SP_def)

subsection \<open>Claims about the chunker\<close>

text \<open>
  Claim C10. For every input string \<^verbatim>\<open>splitIntoChunks\<close> returns at least one
  chunk: the split on \<^verbatim>\<open>/\s+/\<close> never yields an empty array, and the empty
  string gives the one-element chunk list that holds the empty string.
\<close>

theorem splitIntoChunks_at_least_one:
  "split_ws text \<noteq> [] \<and> 1 \<le> length (splitIntoChunks text) \<and> splitIntoChunks [] = [[]]"
  by (simp add: split_ws_not_Nil splitIntoChunks_empty splitIntoChunks_not_Nil Suc_le_eq)

text \<open>
  Claim C1, as the specification states it: the chunker discards empty tokens, so
  that the empty input yields the empty chunk sequence. The source keeps the
  empty token that the split produces for the empty input.
\<close>

theorem chunker_spec_empty_input_counterexample:
  "chunker_spec [] = [] \<and> splitIntoChunks [] \<noteq> chunker_spec []"
  by (simp add: chunker_spec_def ws_tokens_def batches_Nil splitIntoChunks_empty)

text \<open>
  Claim C1, amended. For every input string the chunker splits on white-space
  runs and keeps an empty token in front of a leading run and behind a trailing
  run (the empty input is one empty token); between them stand exactly the
  white-space-normalised tokens. The tokens are grouped in order into batches of
  at least one and at most 8, every batch but the last holding exactly 8, and
  each batch is rejoined with single spaces. The empty input yields the
  one-chunk sequence that holds the empty string.
\<close>

theorem splitIntoChunks_batches_of_split:
  "splitIntoChunks text = map (array_join SP) (batches 8 (split_ws text)) \<and>
   split_ws text =
     edge_tokens (text = [] \<or> isWhiteSpace (hd text)) @ ws_tokens text @
     edge_tokens (text \<noteq> [] \<and> isWhiteSpace (last text)) \<and>
   concat (batches 8 (split_ws text)) = split_ws text \<and>
   (\<forall>b\<in>set (batches 8 (split_ws text)). 1 \<le> length b \<and> length b \<le> 8) \<and>
   (\<forall>b\<in>set (butlast (batches 8 (split_ws text))). length b = 8) \<and>
   splitIntoChunks [] = [[]]"
proof (intro conjI ballI)
  show "splitIntoChunks text = map (array_join SP) (batches 8 (split_ws text))"
    by (rule splitIntoChunks_batches)
  show "split_ws text =
     edge_tokens (text = [] \<or> isWhiteSpace (hd text)) @ ws_tokens text @
     edge_tokens (text \<noteq> [] \<and> isWhiteSpace (last text))"
    by (rule split_ws_edges)
  show "concat (batches 8 (split_ws text)) = split_ws text"
    by (simp add: concat_batches)
  show "splitIntoChunks [] = [[]]" by (rule splitIntoChunks_empty)
next
  fix b assume "b \<in> set (batches 8 (split_ws text))"
  then have "b \<noteq> [] \<and> length b \<le> 8" by (rule batches_bounds)
  then show "1 \<le> length b" "length b \<le> 8" by (simp_all add: Suc_le_eq)
next
  fix b assume "b \<in> set (butlast (batches 8 (split_ws text)))"
  then show "length b = 8" by (rule batches_full)
qed

theorem splitIntoChunks_batches_of_split_witness:
  "map js [''a'', ''b'', ''c'', ''d'', ''e'', ''f'', ''g'', ''h''] \<in>
     set (batches 8 (split_ws (js ''a b c d e f g h i j''))) \<and>
   map js [''a'', ''b'', ''c'', ''d'', ''e'', ''f'', ''g'', ''h''] \<in>
     set (butlast (batches 8 (split_ws (js ''a b c d e f g h i j'')))) \<and>
   1 \<le> length (map js [''a'', ''b'', ''c'', ''d'', ''e'', ''f'', ''g'', ''h'']) \<and>
   length (map js [''a'', ''b'', ''c'', ''d'', ''e'', ''f'', ''g'', ''h'']) = 8 \<and>
   splitIntoChunks (js ''a b c d e f g h i j'') =
     map (array_join SP) (batches 8 (split_ws (js ''a b c d e f g h i j'')))"
proof -
  have b: "batches 8 (split_ws (js ''a b c d e f g h i j'')) =
     [map js [''a'', ''b'', ''c'', ''d'', ''e'', ''f'', ''g'', ''h''], map js [''i'', ''j'']]"
    by (simp only: js_example_split js_example_batches)
  have m: "map js [''a'', ''b'', ''c'', ''d'', ''e'', ''f'', ''g'', ''h''] \<in>
     set (batches 8 (split_ws (js ''a b c d e f g h i j'')))"
    unfolding b by simp
  have l: "map js [''a'', ''b'', ''c'', ''d'', ''e'', ''f'', ''g'', ''h''] \<in>
     set (butlast (batches 8 (split_ws (js ''a b c d e f g h i j''))))"
    unfolding b by simp
  from m l splitIntoChunks_batches_of_split [of "js ''a b c d e f g h i j''"]
  show ?thesis by blast
qed

text \<open>
  Claim C2, as the specification states it: the chunks rejoined with single
  spaces are exactly the white-space-normalised tokens of the input, joined by
  single spaces. An input that begins with white space keeps a leading space.
\<close>

theorem rejoined_chunks_leading_space_counterexample:
  "array_join SP (splitIntoChunks (js '' a'')) \<noteq> array_join SP (ws_tokens (js '' a''))"
  by (simp add: splitIntoChunks_def js_def split_ws.simps isWhiteSpace_def chunk_loop.simps
      array_slice_def SP_def ws_tokens_def)

text \<open>
  Claim C2, amended. For every input string, rejoining the chunks with single
  spaces gives the input with every white-space run collapsed to one space, a
  leading and a trailing run included; the white-space-normalised tokens of the
  rejoined text are exactly those of the input; and no chunk holds more than 8
  tokens, whether they are counted as normalised tokens or by the source's own
  split.
\<close>

theorem rejoined_chunks_collapse_ws:
  "array_join SP (splitIntoChunks text) = collapse_ws text \<and>
   ws_tokens (array_join SP (splitIntoChunks text)) = ws_tokens text \<and>
   (\<forall>chunk\<in>set (splitIntoChunks text).
      length (ws_tokens chunk) \<le> 8 \<and> length (split_ws chunk) \<le> 8)"
proof (intro conjI ballI)
  have j: "array_join SP (splitIntoChunks text) = array_join SP (split_ws text)"
    by (simp add: splitIntoChunks_batches array_join_batches)
  then show "array_join SP (splitIntoChunks text) = collapse_ws text"
    by (simp add: array_join_split_ws)
  have "ws_tokens (array_join SP (split_ws text)) = filter (\<lambda>t. t \<noteq> []) (split_ws text)"
    by (intro ws_tokens_array_join) (blast dest: split_ws_tokens_clean)
  with j show "ws_tokens (array_join SP (splitIntoChunks text)) = ws_tokens text"
    by (simp add: ws_tokens_split)
next
  fix chunk assume "chunk \<in> set (splitIntoChunks text)"
  then obtain b where b: "b \<in> set (batches 8 (split_ws text))" and c: "chunk = array_join SP b"
    by (auto simp: splitIntoChunks_batches)
  from b have clean: "\<forall>t\<in>set b. \<forall>c\<in>set t. \<not> isWhiteSpace c"
    by (blast dest: batch_tokens_clean)
  from b have bd: "b \<noteq> [] \<and> length b \<le> 8" by (rule batches_bounds)
  have "length (ws_tokens chunk) = length (filter (\<lambda>t. t \<noteq> []) b)"
    unfolding c using clean by (simp add: ws_tokens_array_join)
  also have "\<dots> \<le> length b" by (rule length_filter_le)
  finally show "length (ws_tokens chunk) \<le> 8" using bd by simp
  have "length (split_ws chunk) \<le> length b"
    unfolding c using clean bd by (intro length_split_ws_array_join) simp_all
  then show "length (split_ws chunk) \<le> 8" using bd by simp
qed

theorem rejoined_chunks_collapse_ws_witness:
  "js ''a b c d e f g h'' \<in> set (splitIntoChunks (js ''a b c d e f g h i j'')) \<and>
   length (ws_tokens (js ''a b c d e f g h'')) \<le> 8 \<and>
   length (split_ws (js ''a b c d e f g h'')) \<le> 8 \<and>
   array_join SP (splitIntoChunks (js ''a b c d e f g h i j'')) =
     collapse_ws (js ''a b c d e f g h i j'')"
proof -
  have m: "js ''a b c d e f g h'' \<in> set (splitIntoChunks (js ''a b c d e f g h i j''))"
    unfolding js_example_chunks by simp
  with rejoined_chunks_collapse_ws [of "js ''a b c d e f g h i j''"]
  show ?thesis by blast
qed

section \<open>Properties of the playback sequencer\<close>

lemma nine_words:
  "splitIntoChunks (js ''a b c d e f g h i'') = [js ''a b c d e f g h'', js ''i'']"
  by (simp add: splitIntoChunks_def js_def split_ws.simps isWhiteSpace_def chunk_loop.simps
      array_slice_def SP_def)

lemma one_word: "splitIntoChunks (js ''hello'') = [js ''hello'']"
  by (simp add: splitIntoChunks_def js_def split_ws.simps isWhiteSpace_def chunk_loop.simps
      array_slice_def SP_def)

lemma js_Nil_iff [simp]: "js s = [] \<longleftrightarrow> s = []"
  by (simp add: js_def)

lemmas handler_defs =
  onChange_def startSpeaking_def handleInterrupt_def resumeSpeaking_def
  speakRemainingChunks_def repeat_resolved_def repeat_rejected_def delay_elapsed_def
  render_def mounted_def

text \<open>The state each scenario ends in.\<close>

lemma run_interrupted_first_of_two:
  "run interrupted_first_of_two mounted =
   \<lparr>userContent = js ''a b c d e f g h i'',
    chunks = [js ''a b c d e f g h'', js ''i''],
    chunkIndexRef = 1, isSpeaking = False, isInterrupted = True, resumeRequested = False,
    suspended = [(\<lparr>c_chunks = [js ''a b c d e f g h'', js ''i''], c_isInterrupted = False,
                    c_resumeRequested = False\<rparr>, AwaitDelay)],
    effects = [RepeatMessage (js ''a b c d e f g h''), Interrupt,
               SendMessage (js ''User interruption!''), ForceUpdate, SetTimeout 1000]\<rparr>"
  by (simp add: interrupted_first_of_two_def handler_defs nine_words)

lemma run_interrupted_only_chunk:
  "run interrupted_only_chunk mounted =
   \<lparr>userContent = js ''hello'', chunks = [js ''hello''],
    chunkIndexRef = 1, isSpeaking = False, isInterrupted = True, resumeRequested = False,
    suspended = [],
    effects = [RepeatMessage (js ''hello''), Interrupt,
               SendMessage (js ''User interruption!''), ForceUpdate, SetTimeout 1000]\<rparr>"
  by (simp add: interrupted_only_chunk_def handler_defs one_word)

lemma run_interrupted_avatar_talk:
  "run interrupted_avatar_talk mounted =
   \<lparr>userContent = js ''hello'', chunks = [js ''hello''],
    chunkIndexRef = 0, isSpeaking = False, isInterrupted = True, resumeRequested = False,
    suspended = [],
    effects = [Interrupt, SendMessage (js ''User interruption!'')]\<rparr>"
  by (simp add: interrupted_avatar_talk_def handler_defs one_word)

lemma run_append: "run (es @ fs) w = run fs (run es w)"
  by (induction es arbitrary: w) simp_all

lemma run_snoc: "run (es @ [e]) w = fire e (run es w)"
  by (simp add: run_append)

lemma spoken_append: "spoken (xs @ ys) = spoken xs @ spoken ys"
  by (induction xs rule: spoken.induct) simp_all

subsection \<open>A playback that is left alone\<close>

text \<open>
  A run of the loop whose bindings do not say ``interrupted and not resumed'',
  started with no other run suspended and left alone, issues the speak call of
  every chunk from the current index on, once each and in order, and ends with
  the index at the end.
\<close>

lemma uninterrupted_playback:
  assumes "suspended w = []"
    and "\<not> (c_isInterrupted cl \<and> \<not> c_resumeRequested cl)"
    and "chunkIndexRef w \<le> length (c_chunks cl)"
    and "n = length (c_chunks cl) - chunkIndexRef w"
  shows "spoken (effects (run (uninterrupted n) (speakRemainingChunks cl w))) =
           spoken (effects w) @ drop (chunkIndexRef w) (c_chunks cl) \<and>
         suspended (run (uninterrupted n) (speakRemainingChunks cl w)) = [] \<and>
         chunkIndexRef (run (uninterrupted n) (speakRemainingChunks cl w)) = length (c_chunks cl)"
  using assms
proof (induction n arbitrary: w)
  case 0
  then show ?case by (simp add: speakRemainingChunks_def)
next
  case (Suc n)
  let ?i = "chunkIndexRef w"
  let ?w1 = "w\<lparr>isSpeaking := True,
    effects := effects w @ [RepeatMessage (c_chunks cl ! ?i)],
    suspended := [(cl, AwaitRepeat)]\<rparr>"
  let ?w2 = "w\<lparr>isSpeaking := False, chunkIndexRef := ?i + 1,
    effects := effects w @ [RepeatMessage (c_chunks cl ! ?i), ForceUpdate, SetTimeout 1000],
    suspended := [(cl, AwaitDelay)]\<rparr>"
  let ?w3 = "w\<lparr>isSpeaking := False, chunkIndexRef := ?i + 1,
    effects := effects w @ [RepeatMessage (c_chunks cl ! ?i), ForceUpdate, SetTimeout 1000],
    suspended := []\<rparr>"
  from Suc.prems have lt: "?i < length (c_chunks cl)" by simp
  from Suc.prems have go: "(c_isInterrupted cl \<and> \<not> c_resumeRequested cl) = False" by simp
  have 1: "speakRemainingChunks cl w = ?w1"
    using lt Suc.prems(1) by (simp add: speakRemainingChunks_def go)
  have 2: "repeat_resolved 0 ?w1 = ?w2"
    by (simp add: repeat_resolved_def)
  have 3: "delay_elapsed 0 ?w2 = speakRemainingChunks cl ?w3"
    by (simp add: delay_elapsed_def)
  have ih: "spoken (effects (run (uninterrupted n) (speakRemainingChunks cl ?w3))) =
           spoken (effects ?w3) @ drop (chunkIndexRef ?w3) (c_chunks cl) \<and>
         suspended (run (uninterrupted n) (speakRemainingChunks cl ?w3)) = [] \<and>
         chunkIndexRef (run (uninterrupted n) (speakRemainingChunks cl ?w3)) = length (c_chunks cl)"
    using Suc.prems lt by (intro Suc.IH) simp_all
  have "spoken (effects ?w3) @ drop (chunkIndexRef ?w3) (c_chunks cl) =
        spoken (effects w) @ drop ?i (c_chunks cl)"
    using lt by (simp add: spoken_append Cons_nth_drop_Suc)
  with ih show ?case by (simp only: uninterrupted.simps run.simps fire.simps 1 2 3)
qed

text \<open>
  So a playback started from a render whose bindings do not say ``interrupted
  and not resumed'' speaks every chunk once, in order.
\<close>

lemma startSpeaking_speaks_all:
  assumes "chunks w \<noteq> []" "\<not> isSpeaking w" "suspended w = []"
    and "\<not> (isInterrupted w \<and> \<not> resumeRequested w)"
  shows "spoken (effects (run (uninterrupted (length (chunks w))) (startSpeaking w))) =
           spoken (effects w) @ chunks w \<and>
         suspended (run (uninterrupted (length (chunks w))) (startSpeaking w)) = [] \<and>
         chunkIndexRef (run (uninterrupted (length (chunks w))) (startSpeaking w)) =
           length (chunks w)"
proof -
  let ?w0 = "w\<lparr>isInterrupted := False, resumeRequested := False, chunkIndexRef := 0\<rparr>"
  have s: "startSpeaking w = speakRemainingChunks (render w) ?w0"
    using assms by (simp add: startSpeaking_def)
  have "spoken (effects (run (uninterrupted (length (chunks w))) (speakRemainingChunks (render w) ?w0))) =
           spoken (effects ?w0) @ drop (chunkIndexRef ?w0) (c_chunks (render w)) \<and>
         suspended (run (uninterrupted (length (chunks w))) (speakRemainingChunks (render w) ?w0)) = [] \<and>
         chunkIndexRef (run (uninterrupted (length (chunks w))) (speakRemainingChunks (render w) ?w0)) =
           length (c_chunks (render w))"
    using assms by (intro uninterrupted_playback) (simp_all add: render_def)
  then show ?thesis by (simp add: s render_def)
qed

text \<open>
  Started from a render whose bindings do say so, the playback is over at
  once, whatever the chunks.
\<close>

lemma startSpeaking_interrupted_render:
  assumes "chunks w \<noteq> []" "\<not> isSpeaking w" "isInterrupted w" "\<not> resumeRequested w"
  shows "startSpeaking w = w\<lparr>isInterrupted := False, resumeRequested := False, chunkIndexRef := 0\<rparr>"
  using assms by (simp add: startSpeaking_def speakRemainingChunks_def render_def)

subsection \<open>What the flags can be\<close>

text \<open>
  Whatever happens to the mounted component, \<^verbatim>\<open>resumeRequested\<close> is false
  between events: \<^verbatim>\<open>resumeSpeaking\<close> sets it, and the run it starts reads the
  bindings of the render before (interrupted, not resumed), leaves the loop at
  once and clears it again.
\<close>

lemma fire_resumeRequested: "\<not> resumeRequested w \<Longrightarrow> \<not> resumeRequested (fire e w)"
  by (cases e)
    (simp_all add: onChange_def startSpeaking_def handleInterrupt_def resumeSpeaking_def
      repeat_resolved_def repeat_rejected_def delay_elapsed_def speakRemainingChunks_def
      render_def)

lemma reachable_resumeRequested: "\<not> resumeRequested (run es mounted)"
proof (induction es rule: rev_induct)
  case Nil
  show ?case by (simp add: mounted_def)
next
  case (snoc e es)
  then show ?case unfolding run_snoc by (rule fire_resumeRequested)
qed

lemma resume_never_speaks:
  "effects (resumeSpeaking (run es mounted)) = effects (run es mounted) \<and>
   suspended (resumeSpeaking (run es mounted)) = suspended (run es mounted) \<and>
   \<not> resumeRequested (resumeSpeaking (run es mounted))"
  using reachable_resumeRequested [of es]
  by (simp add: resumeSpeaking_def speakRemainingChunks_def render_def)

text \<open>A suspended run goes on by its own bindings, whatever the flags have become.\<close>

lemma delay_elapsed_reads_bindings:
  assumes "k < length (suspended w)" "suspended w ! k = (cl, AwaitDelay)"
    and "chunkIndexRef w < length (c_chunks cl)"
    and "\<not> (c_isInterrupted cl \<and> \<not> c_resumeRequested cl)"
  shows "effects (delay_elapsed k w) = effects w @ [RepeatMessage (c_chunks cl ! chunkIndexRef w)]"
  using assms by (simp add: delay_elapsed_def speakRemainingChunks_def)

lemma speakRemainingChunks_index: "chunkIndexRef (speakRemainingChunks cl w) = chunkIndexRef w"
  by (simp add: speakRemainingChunks_def)

lemma fire_index: "\<not> resets e \<Longrightarrow> chunkIndexRef w \<le> chunkIndexRef (fire e w)"
  by (cases e)
    (simp_all add: handleInterrupt_def resumeSpeaking_def repeat_resolved_def
      repeat_rejected_def delay_elapsed_def speakRemainingChunks_index)

lemma run_index:
  "\<forall>e\<in>set es. \<not> resets e \<Longrightarrow> chunkIndexRef w \<le> chunkIndexRef (run es w)"
proof (induction es arbitrary: w)
  case Nil
  show ?case by simp
next
  case (Cons e es)
  then have "chunkIndexRef w \<le> chunkIndexRef (fire e w)" by (simp add: fire_index)
  also from Cons have "\<dots> \<le> chunkIndexRef (run es (fire e w))" by simp
  finally show ?case by simp
qed

subsection \<open>Claims about the playback sequencer\<close>

text \<open>
  Claim C3: for every non-empty chunk sequence, starting playback and letting
  the loop run to completion without interruption invokes the speak call once
  per chunk, in index order. At the end of \<open>interrupted_only_chunk\<close> the chunk
  sequence is not empty, nothing is being spoken and no run is suspended, so
  \<^verbatim>\<open>startSpeaking\<close> goes past its guard; the run it starts reads
  \<^verbatim>\<open>isInterrupted\<close> of the render before, leaves the loop at once, and the
  playback is over with no speak call made.
\<close>

theorem startSpeaking_after_interrupt_speaks_nothing:
  "chunks (run interrupted_only_chunk mounted) = [js ''hello''] \<and>
   isSpeaking (run interrupted_only_chunk mounted) = False \<and>
   suspended (run interrupted_only_chunk mounted) = [] \<and>
   run (interrupted_only_chunk @ [Speak]) mounted =
     (run interrupted_only_chunk mounted)\<lparr>isInterrupted := False, chunkIndexRef := 0\<rparr> \<and>
   effects (run (interrupted_only_chunk @ [Speak]) mounted) =
     effects (run interrupted_only_chunk mounted) \<and>
   suspended (run (interrupted_only_chunk @ [Speak]) mounted) = []"
  unfolding run_snoc run_interrupted_only_chunk
  by (simp add: startSpeaking_def speakRemainingChunks_def render_def)

text \<open>
  Claim C4: after an interrupt during a chunk's speak call, the loop halts
  before it issues the speak call of the next chunk whenever the interrupted
  flag is set and no resume was requested. At the end of
  \<open>interrupted_first_of_two\<close> the flag is set, no resume was requested and the
  first call has resolved; when the delay runs out the run issues the speak call
  of the second chunk all the same, because it reads the bindings of the render
  in which the playback was started.
\<close>

theorem interrupt_does_not_halt_loop:
  "isInterrupted (run interrupted_first_of_two mounted) \<and>
   resumeRequested (run interrupted_first_of_two mounted) = False \<and>
   spoken (effects (run interrupted_first_of_two mounted)) = [js ''a b c d e f g h''] \<and>
   effects (run (interrupted_first_of_two @ [DelayElapsed 0]) mounted) =
     effects (run interrupted_first_of_two mounted) @ [RepeatMessage (js ''i'')]"
  unfolding run_snoc run_interrupted_first_of_two
  by (simp add: delay_elapsed_def speakRemainingChunks_def)

text \<open>
  Claim C5: an accepted resume sets resume-requested, clears the interrupted
  flag and restarts the loop at the current index, so that playback continues
  with the next unspoken chunk. At the end of \<open>interrupted_avatar_talk\<close> and of
  \<open>interrupted_first_of_two\<close> the resume is accepted (interrupted, not speaking,
  index below the length); the run it starts reads the bindings of the render
  before, leaves the loop at once and clears resume-requested again: no speak
  call is made and no run is added.
\<close>

theorem resume_accepted_speaks_nothing:
  "isInterrupted (run interrupted_avatar_talk mounted) \<and>
   isSpeaking (run interrupted_avatar_talk mounted) = False \<and>
   chunkIndexRef (run interrupted_avatar_talk mounted) <
     length (chunks (run interrupted_avatar_talk mounted)) \<and>
   run (interrupted_avatar_talk @ [Resume]) mounted =
     (run interrupted_avatar_talk mounted)\<lparr>isInterrupted := False\<rparr> \<and>
   suspended (run (interrupted_avatar_talk @ [Resume]) mounted) = [] \<and>
   spoken (effects (run (interrupted_avatar_talk @ [Resume]) mounted)) = [] \<and>
   chunkIndexRef (run interrupted_first_of_two mounted) <
     length (chunks (run interrupted_first_of_two mounted)) \<and>
   run (interrupted_first_of_two @ [Resume]) mounted =
     (run interrupted_first_of_two mounted)\<lparr>isInterrupted := False\<rparr>"
  unfolding run_snoc run_interrupted_first_of_two run_interrupted_avatar_talk
  by (simp add: resumeSpeaking_def speakRemainingChunks_def render_def)

text \<open>
  Claim C6: \<^verbatim>\<open>resumeSpeaking\<close> changes nothing and makes no call whenever the
  interrupted flag is false, or the speaking flag is true, or the chunk index
  has reached the length of the chunk sequence.
\<close>

theorem resumeSpeaking_rejected_noop:
  "\<not> isInterrupted w \<or> isSpeaking w \<or> chunkIndexRef w \<ge> length (chunks w) \<Longrightarrow>
     resumeSpeaking w = w"
  by (auto simp: resumeSpeaking_def)

theorem resumeSpeaking_rejected_noop_witness:
  "resumeSpeaking mounted = mounted \<and>
   isInterrupted (run [Change (js ''hello''), Speak,
     InterruptClick] mounted) \<and>
   isSpeaking (run [Change (js ''hello''), Speak,
     InterruptClick] mounted) \<and>
   resumeSpeaking (run [Change (js ''hello''), Speak,
     InterruptClick] mounted) =
     run [Change (js ''hello''), Speak, InterruptClick] mounted \<and>
   isInterrupted (run interrupted_only_chunk mounted) \<and>
   isSpeaking (run interrupted_only_chunk mounted) = False \<and>
   chunkIndexRef (run interrupted_only_chunk mounted) \<ge>
     length (chunks (run interrupted_only_chunk mounted)) \<and>
   resumeSpeaking (run interrupted_only_chunk mounted) = run interrupted_only_chunk mounted"
proof -
  have a: "\<not> isInterrupted mounted" by (simp add: mounted_def)
  have b: "isInterrupted (run [Change (js ''hello''), Speak,
      InterruptClick] mounted)"
    "isSpeaking (run [Change (js ''hello''), Speak,
      InterruptClick] mounted)"
    by (simp_all add: handler_defs one_word)
  have c: "isInterrupted (run interrupted_only_chunk mounted)"
    "isSpeaking (run interrupted_only_chunk mounted) = False"
    "chunkIndexRef (run interrupted_only_chunk mounted) \<ge>
     length (chunks (run interrupted_only_chunk mounted))"
    unfolding run_interrupted_only_chunk by simp_all
  from a b c resumeSpeaking_rejected_noop [of mounted]
    resumeSpeaking_rejected_noop [of "run [Change (js ''hello''), Speak,
      InterruptClick] mounted"]
    resumeSpeaking_rejected_noop [of "run interrupted_only_chunk mounted"]
  show ?thesis by blast
qed

text \<open>
  Claim C7: \<^verbatim>\<open>handleInterrupt\<close> has no effect unless the speaking flag is true;
  when it is, the handler sets the interrupted flag, clears resume-requested,
  calls \<^verbatim>\<open>interrupt()\<close> and then \<^verbatim>\<open>sendMessage\<close> with the message it was
  given, and returns without waiting: no run is suspended on the call, and the
  runs that were suspended stay so.
\<close>

theorem handleInterrupt_effect:
  "(\<not> isSpeaking w \<longrightarrow> handleInterrupt userInput w = w) \<and>
   (isSpeaking w \<longrightarrow>
      handleInterrupt userInput w =
        w\<lparr>isInterrupted := True, resumeRequested := False,
          effects := effects w @ [Interrupt, SendMessage userInput]\<rparr> \<and>
      isInterrupted (handleInterrupt userInput w) \<and>
      \<not> resumeRequested (handleInterrupt userInput w) \<and>
      effects (handleInterrupt userInput w) = effects w @ [Interrupt, SendMessage userInput] \<and>
      suspended (handleInterrupt userInput w) = suspended w)"
  by (simp add: handleInterrupt_def)

theorem handleInterrupt_effect_witness:
  "handleInterrupt (js ''User interruption!'') mounted = mounted \<and>
   isSpeaking (run [Change (js ''hello''), Speak] mounted) \<and>
   isInterrupted (handleInterrupt (js ''User interruption!'')
     (run [Change (js ''hello''), Speak] mounted)) \<and>
   effects (handleInterrupt (js ''User interruption!'')
     (run [Change (js ''hello''), Speak] mounted)) =
     [RepeatMessage (js ''hello''), Interrupt, SendMessage (js ''User interruption!'')]"
proof -
  have a: "\<not> isSpeaking mounted" by (simp add: mounted_def)
  have b: "isSpeaking (run [Change (js ''hello''), Speak] mounted)"
    by (simp add: handler_defs one_word)
  have c: "effects (run [Change (js ''hello''), Speak] mounted) = [RepeatMessage (js ''hello'')]"
    by (simp add: handler_defs one_word)
  from a b handleInterrupt_effect [of mounted "js ''User interruption!''"]
    handleInterrupt_effect [of "run [Change (js ''hello''), Speak] mounted"
      "js ''User interruption!''"]
  show ?thesis unfolding c by simp
qed

text \<open>
  Claim C8: within a playback run the chunk index never decreases: the loop
  leaves it alone but for the increment after a speak call has resolved, and so
  does every event other than a change of the input and a click on Speak. The
  index is set to zero whenever a new utterance is chunked and whenever a fresh
  playback is started.
\<close>

theorem chunk_index_monotone_and_reset:
  "chunkIndexRef (speakRemainingChunks cl w) = chunkIndexRef w \<and>
   chunkIndexRef (repeat_resolved k w) =
     (if k < length (suspended w) \<and> snd (suspended w ! k) = AwaitRepeat
      then chunkIndexRef w + 1 else chunkIndexRef w) \<and>
   chunkIndexRef (delay_elapsed k w) = chunkIndexRef w \<and>
   ((\<forall>e\<in>set es. \<not> resets e) \<longrightarrow> chunkIndexRef w \<le> chunkIndexRef (run es w)) \<and>
   chunkIndexRef (onChange input w) = 0 \<and>
   (chunks w \<noteq> [] \<and> \<not> isSpeaking w \<longrightarrow> chunkIndexRef (startSpeaking w) = 0)"
  by (simp add: speakRemainingChunks_index repeat_resolved_def delay_elapsed_def run_index
      onChange_def startSpeaking_def)

theorem chunk_index_monotone_and_reset_witness:
  "chunkIndexRef (run [Change (js ''hello''), Speak] mounted) = 0 \<and>
   chunkIndexRef (run [InterruptClick, RepeatResolved 0,
      DelayElapsed 0] (run [Change (js ''hello''), Speak] mounted)) = 1 \<and>
   chunkIndexRef (run [Change (js ''hello''), Speak] mounted) \<le>
     chunkIndexRef (run [InterruptClick, RepeatResolved 0,
      DelayElapsed 0] (run [Change (js ''hello''), Speak] mounted)) \<and>
   chunkIndexRef (run interrupted_only_chunk mounted) = 1 \<and>
   chunkIndexRef (startSpeaking (run interrupted_only_chunk mounted)) = 0 \<and>
   chunkIndexRef (onChange (js ''a b c d e f g h i'') (run interrupted_only_chunk mounted)) = 0"
proof -
  have a: "chunkIndexRef (run [Change (js ''hello''), Speak] mounted) = 0"
    by (simp add: handler_defs one_word)
  have b: "run [InterruptClick, RepeatResolved 0, DelayElapsed 0]
      (run [Change (js ''hello''), Speak] mounted) = run interrupted_only_chunk mounted"
    by (simp add: interrupted_only_chunk_def)
  have c: "chunkIndexRef (run [InterruptClick, RepeatResolved 0,
      DelayElapsed 0] (run [Change (js ''hello''), Speak] mounted)) = 1"
    "chunkIndexRef (run interrupted_only_chunk mounted) = 1"
    unfolding b run_interrupted_only_chunk by simp_all
  have d: "\<forall>e\<in>set [InterruptClick, RepeatResolved 0, DelayElapsed 0].
      \<not> resets e"
    by simp
  have e: "chunks (run interrupted_only_chunk mounted) \<noteq> [] \<and>
    \<not> isSpeaking (run interrupted_only_chunk mounted)"
    unfolding run_interrupted_only_chunk by simp
  from a c d e
    chunk_index_monotone_and_reset [of _ "run [Change (js ''hello''), Speak] mounted" 0
      "[InterruptClick, RepeatResolved 0, DelayElapsed 0]" "[]"]
    chunk_index_monotone_and_reset [of _ "run interrupted_only_chunk mounted" 0 "[]"
      "js ''a b c d e f g h i''"]
  show ?thesis by blast
qed

section \<open>Properties of the session start\<close>

text \<open>
  Claim C9: when the fetch of the access token fails or returns an empty body,
  \<^verbatim>\<open>startSessionV2\<close> gives up before it initialises the avatar: the error is
  caught and logged and nothing else is called, the fetch is made once whatever
  happens, and the avatar is initialised and the session started only with a
  token that is not empty.
\<close>

theorem startSessionV2_token_failure_aborts:
  "(fetch_response env = Inl e \<longrightarrow>
      startSessionV2 env isVoiceChat = [FetchAccessToken, ConsoleError e]) \<and>
   (fetch_response env = Inr (Inl e) \<longrightarrow>
      startSessionV2 env isVoiceChat = [FetchAccessToken, ConsoleError e]) \<and>
   (fetch_response env = Inr (Inr []) \<longrightarrow>
      startSessionV2 env isVoiceChat = [FetchAccessToken, ConsoleError NoAccessToken]) \<and>
   (InitAvatar token \<in> set (startSessionV2 env isVoiceChat) \<longrightarrow>
      token \<noteq> [] \<and> fetch_response env = Inr (Inr token)) \<and>
   (StartAvatar \<in> set (startSessionV2 env isVoiceChat) \<longrightarrow>
      (\<exists>t. t \<noteq> [] \<and> fetch_response env = Inr (Inr t))) \<and>
   length (filter (\<lambda>x. x = FetchAccessToken) (startSessionV2 env isVoiceChat)) = 1"
  by (auto simp: startSessionV2_def session_try_def split: sum.splits option.splits if_splits)

theorem startSessionV2_token_failure_aborts_witness:
  "startSessionV2 network_down True = [FetchAccessToken, ConsoleError (Thrown 0)] \<and>
   startSessionV2 empty_body True = [FetchAccessToken, ConsoleError NoAccessToken] \<and>
   StartAvatar \<in> set (startSessionV2 token_served True) \<and>
   InitAvatar (js ''tok'') \<in> set (startSessionV2 token_served True) \<and>
   js ''tok'' \<noteq> [] \<and>
   fetch_response token_served = Inr (Inr (js ''tok''))"
proof -
  have a: "fetch_response network_down = Inl (Thrown 0)" by (simp add: network_down_def)
  have b: "fetch_response empty_body = Inr (Inr [])" by (simp add: empty_body_def)
  have c: "InitAvatar (js ''tok'') \<in> set (startSessionV2 token_served True)"
    "StartAvatar \<in> set (startSessionV2 token_served True)"
    by (simp_all add: token_served_def startSessionV2_def session_try_def js_def)
  from a b c
    startSessionV2_token_failure_aborts [of network_down "Thrown 0" True]
    startSessionV2_token_failure_aborts [of empty_body _ True]
    startSessionV2_token_failure_aborts [of token_served _ True "js ''tok''"]
  show ?thesis by blast
qed

end
